theory Spec2Isabelle
  imports Main "HOL-Library.Sublist"
begin

section \<open>Data preparation of the CBOW notebook\<close>

text \<open>
  The notebook \<^verbatim>\<open>w2v_hw.ipynb\<close> prepares its training data in four code cells:
  the vocabulary of the most common words (cell 6), the filtered text (cell 8), the
  helpers \<^verbatim>\<open>make_context_vector\<close> and \<^verbatim>\<open>data_batcher\<close> (cells 11 and 12) and the
  loop that builds the arrays \<^verbatim>\<open>X\<close> and \<^verbatim>\<open>Y\<close> (cell 14). This theory embeds those
  cells. The constants \<^verbatim>\<open>1000\<close> and \<^verbatim>\<open>CONTEXT_SIZE = 2\<close> of the notebook are
  parameters here. Python integers are \<open>int\<close>; ids, which \<^verbatim>\<open>enumerate\<close> counts up
  from zero, are \<open>nat\<close>.
\<close>

subsection \<open>Errors\<close>

text \<open>
  The notebook defines no exception class. What its cells can raise are Python's own
  \<^verbatim>\<open>IndexError\<close> (a subscript out of range) and \<^verbatim>\<open>KeyError\<close> (a key missing
  from a dictionary). The remaining three constructors are the error kinds that the
  specification names; no definition below produces them.
\<close>

datatype error =
    IndexError
  | KeyError
  | InvalidSizeError
  | InsufficientDataError
  | UnknownTokenError

type_synonym token = string

subsection \<open>Python primitives used by the cells\<close>

text \<open>\<^verbatim>\<open>xs[i]\<close>: an index below zero counts from the end of the list.\<close>

definition py_index :: "'a list \<Rightarrow> int \<Rightarrow> error + 'a" where
  "py_index xs i =
     (if 0 \<le> i \<and> i < int (length xs) then Inr (xs ! nat i)
      else if i < 0 \<and> - int (length xs) \<le> i then Inr (xs ! nat (int (length xs) + i))
      else Inl IndexError)"

text \<open>\<^verbatim>\<open>range(a, b)\<close>: the integers from \<open>a\<close> up to \<open>b - 1\<close>, none when \<open>b \<le> a\<close>.\<close>

definition py_range :: "int \<Rightarrow> int \<Rightarrow> int list" where
  "py_range a b = [a..b - 1]"

text \<open>\<^verbatim>\<open>xs[lo:hi]\<close>: both bounds are clipped to the list, negative ones after adding
  the length.\<close>

definition py_clip :: "nat \<Rightarrow> int \<Rightarrow> int" where
  "py_clip n k = (if k < 0 then max 0 (k + int n) else min k (int n))"

definition py_slice :: "'a list \<Rightarrow> int \<Rightarrow> int \<Rightarrow> 'a list" where
  "py_slice xs lo hi =
     take (nat (py_clip (length xs) hi - py_clip (length xs) lo))
       (drop (nat (py_clip (length xs) lo)) xs)"

text \<open>A list comprehension \<^verbatim>\<open>[f(x) for x in xs]\<close> whose body may raise: the first
  exception ends it.\<close>

fun comprehension :: "('a \<Rightarrow> error + 'b) \<Rightarrow> 'a list \<Rightarrow> error + 'b list" where
  "comprehension f [] = Inr []"
| "comprehension f (x # xs) =
     (case f x of
        Inl e \<Rightarrow> Inl e
      | Inr y \<Rightarrow> (case comprehension f xs of Inl e \<Rightarrow> Inl e | Inr ys \<Rightarrow> Inr (y # ys)))"

text \<open>A \<^verbatim>\<open>for\<close> loop over a list that updates a state and may raise.\<close>

fun for_loop :: "('s \<Rightarrow> 'a \<Rightarrow> error + 's) \<Rightarrow> 'a list \<Rightarrow> 's \<Rightarrow> error + 's" where
  "for_loop body [] s = Inr s"
| "for_loop body (x # xs) s =
     (case body s x of Inl e \<Rightarrow> Inl e | Inr s' \<Rightarrow> for_loop body xs s')"

text \<open>\<^verbatim>\<open>d[k]\<close> on a dictionary.\<close>

definition dict_get :: "('k \<rightharpoonup> 'v) \<Rightarrow> 'k \<Rightarrow> error + 'v" where
  "dict_get d k = (case d k of None \<Rightarrow> Inl KeyError | Some v \<Rightarrow> Inr v)"

subsection \<open>Cell 6: the vocabulary\<close>

text \<open>
  \<^verbatim>\<open>raw_text_count = Counter(raw_text)\<close>
  \<^verbatim>\<open>vocab = set(list(zip(*raw_text_count.most_common(1000)))[0])\<close>

  A \<^verbatim>\<open>Counter\<close> is a dictionary from each distinct word to its number of
  occurrences. The order in which it yields its items is the insertion order from
  Python 3.7 on and depends on the hashes of the words before (the notebook records
  Python 3.5.2), so it is the parameter \<open>keys\<close>: a list of the distinct words of the
  text. \<^verbatim>\<open>most_common(n)\<close> is \<^verbatim>\<open>heapq.nlargest(n, items, key=count)\<close>, which
  equals \<^verbatim>\<open>sorted(items, key=count, reverse=True)[:n]\<close> for \<open>n \<ge> 0\<close> and is empty for
  \<open>n < 0\<close>; the sort is stable. Unzipping an empty list leaves nothing to take
  element 0 of, and the subscript raises \<^verbatim>\<open>IndexError\<close>.
\<close>

definition Counter :: "token list \<Rightarrow> token list \<Rightarrow> (token \<times> nat) list" where
  "Counter keys raw_text = map (\<lambda>w. (w, count_list raw_text w)) keys"

definition most_common :: "(token \<times> nat) list \<Rightarrow> int \<Rightarrow> (token \<times> nat) list" where
  "most_common items n = take (nat n) (sort_key (\<lambda>p. - int (snd p)) items)"

definition build_vocabulary :: "token list \<Rightarrow> token list \<Rightarrow> int \<Rightarrow> error + token set" where
  "build_vocabulary keys raw_text K =
     (case most_common (Counter keys raw_text) K of
        [] \<Rightarrow> Inl IndexError
      | p # ps \<Rightarrow> Inr (set (map fst (p # ps))))"

subsection \<open>Cell 8: the filtered text\<close>

text \<open>\<^verbatim>\<open>text = [r for r in raw_text if r in vocab]\<close>\<close>

definition filter_tokens :: "token list \<Rightarrow> token set \<Rightarrow> token list" where
  "filter_tokens raw_text vocab = filter (\<lambda>r. r \<in> vocab) raw_text"

subsection \<open>Cell 11: \<^verbatim>\<open>make_context_vector\<close>\<close>

text \<open>\<^verbatim>\<open>idxs = [word_to_ix[w] for w in context]\<close>\<close>

definition make_context_vector :: "token list \<Rightarrow> (token \<rightharpoonup> nat) \<Rightarrow> error + nat list" where
  "make_context_vector context word_to_ix = comprehension (dict_get word_to_ix) context"

subsection \<open>Cell 14: the id mapping and the dataset\<close>

text \<open>
  \<^verbatim>\<open>word_to_ix = {word: i for i, word in enumerate(vocab)}\<close>

  \<^verbatim>\<open>vocab\<close> is a Python set of strings. The order in which \<^verbatim>\<open>enumerate\<close> walks
  through it is fixed by the hashes of the strings, which Python 3 salts anew in every
  interpreter process. The parameter \<open>enum\<close> is that order: a list of the elements of
  \<^verbatim>\<open>vocab\<close>, each once. A later pair of the comprehension overrides an earlier one
  with the same key.
\<close>

definition word_to_ix :: "token list \<Rightarrow> (token \<rightharpoonup> nat)" where
  "word_to_ix enum = fold (\<lambda>p d. d(snd p \<mapsto> fst p)) (enumerate 0 enum) Map.empty"

text \<open>
  \<^verbatim>\<open>context = [text[i + j] for j in range(-CONTEXT_SIZE, CONTEXT_SIZE+1) if not j==0]\<close>
\<close>

definition window :: "token list \<Rightarrow> int \<Rightarrow> int \<Rightarrow> error + token list" where
  "window text W i =
     comprehension (\<lambda>j. py_index text (i + j)) (filter (\<lambda>j. j \<noteq> 0) (py_range (- W) (W + 1)))"

text \<open>
  The body of the loop, on the pair of the lists \<^verbatim>\<open>X\<close> and \<^verbatim>\<open>Y\<close>:
  \<^verbatim>\<open>target = text[i]\<close>
  \<^verbatim>\<open>X.append(make_context_vector(context, word_to_ix))\<close>
  \<^verbatim>\<open>Y.append(word_to_ix[target])\<close>
\<close>

definition example_step ::
  "token list \<Rightarrow> (token \<rightharpoonup> nat) \<Rightarrow> int \<Rightarrow> nat list list \<times> nat list \<Rightarrow> int
     \<Rightarrow> error + nat list list \<times> nat list" where
  "example_step text d W s i =
     (case window text W i of
        Inl e \<Rightarrow> Inl e
      | Inr context \<Rightarrow>
          (case py_index text i of
             Inl e \<Rightarrow> Inl e
           | Inr target \<Rightarrow>
               (case make_context_vector context d of
                  Inl e \<Rightarrow> Inl e
                | Inr idxs \<Rightarrow>
                    (case dict_get d target of
                       Inl e \<Rightarrow> Inl e
                     | Inr t \<Rightarrow> Inr (fst s @ [idxs], snd s @ [t])))))"

text \<open>
  \<^verbatim>\<open>for i in range(CONTEXT_SIZE, len(text) - CONTEXT_SIZE): ...\<close>, from empty \<^verbatim>\<open>X\<close> and
  \<^verbatim>\<open>Y\<close>. The conversion to \<^verbatim>\<open>numpy\<close> arrays at the end of the cell keeps the
  entries and their order.
\<close>

definition make_examples ::
  "token list \<Rightarrow> (token \<rightharpoonup> nat) \<Rightarrow> int \<Rightarrow> error + nat list list \<times> nat list" where
  "make_examples text d W =
     for_loop (example_step text d W) (py_range W (int (length text) - W)) ([], [])"

text \<open>The three cells in sequence.\<close>

definition pipeline ::
  "token list \<Rightarrow> token list \<Rightarrow> token list \<Rightarrow> int \<Rightarrow> int \<Rightarrow> error + nat list list \<times> nat list" where
  "pipeline keys enum raw_text K W =
     (case build_vocabulary keys raw_text K of
        Inl e \<Rightarrow> Inl e
      | Inr vocab \<Rightarrow> make_examples (filter_tokens raw_text vocab) (word_to_ix enum) W)"

text \<open>
  Two enumerations of one vocabulary give two id mappings. \<open>renaming e1 e2\<close> takes the id
  that a word has under \<open>e1\<close> to the id it has under \<open>e2\<close>, and \<open>relabel\<close> applies a
  renaming of ids to a dataset. Both serve to compare two runs of the cells.
\<close>

definition renaming :: "token list \<Rightarrow> token list \<Rightarrow> nat \<Rightarrow> nat" where
  "renaming e1 e2 i =
     (if i < length e1 then (case word_to_ix e2 (e1 ! i) of Some j \<Rightarrow> j | None \<Rightarrow> i) else i)"

definition relabel :: "(nat \<Rightarrow> nat) \<Rightarrow> nat list list \<times> nat list \<Rightarrow> nat list list \<times> nat list" where
  "relabel r s = (map (map r) (fst s), map r (snd s))"

subsection \<open>Cell 12: \<^verbatim>\<open>data_batcher\<close>\<close>

text \<open>
  The docstring of \<^verbatim>\<open>data_batcher\<close> takes \<^verbatim>\<open>X\<close> to be a matrix of size
  \<^verbatim>\<open>(num_sample, CONTEXT_SIZE*2)\<close> and \<^verbatim>\<open>Y\<close> an array of size \<^verbatim>\<open>(num_sample)\<close>.
  A \<^verbatim>\<open>numpy\<close> array that reaches the function as \<^verbatim>\<open>X\<close> is one-dimensional (what
  \<^verbatim>\<open>np.array\<close> makes of a list of numbers, and of the empty list) or two-dimensional,
  the list of its rows (what it makes of a non-empty list of equally long lists).
  \<^verbatim>\<open>X.shape[0]\<close> is the length along the first axis in both cases.
\<close>

datatype 'a ndarray = Vector "'a list" | Matrix "'a list list"

fun shape0 :: "'a ndarray \<Rightarrow> nat" where
  "shape0 (Vector xs) = length xs"
| "shape0 (Matrix rows) = length rows"

text \<open>
  \<^verbatim>\<open>indices = np.arange(X.shape[0])\<close>; \<^verbatim>\<open>A[draw]\<close> with an array of indices picks those
  entries along the first axis and raises \<^verbatim>\<open>IndexError\<close> when one of them is out of
  bounds. \<^verbatim>\<open>Y\<close> is given by its entries along the first axis.
\<close>

definition np_arange :: "nat \<Rightarrow> nat list" where
  "np_arange n = [0..<n]"

definition np_take :: "'a list \<Rightarrow> nat list \<Rightarrow> error + 'a list" where
  "np_take A draw = (if list_all (\<lambda>i. i < length A) draw then Inr (map (nth A) draw) else Inl IndexError)"

text \<open>
  \<^verbatim>\<open>X[draw, :]\<close> has two subscripts. On a one-dimensional array that is one too many
  and \<^verbatim>\<open>numpy\<close> raises \<^verbatim>\<open>IndexError\<close>, whatever \<^verbatim>\<open>draw\<close> holds. On a matrix the
  first subscript picks the rows and the second, the full slice, keeps every column of
  each of them.
\<close>

fun np_take_rows :: "'a ndarray \<Rightarrow> nat list \<Rightarrow> error + 'a list list" where
  "np_take_rows (Vector xs) draw = Inl IndexError"
| "np_take_rows (Matrix rows) draw =
     (case np_take rows draw of
        Inl e \<Rightarrow> Inl e
      | Inr picked \<Rightarrow> Inr (map (\<lambda>row. py_slice row 0 (int (length row))) picked))"

text \<open>
  \<^verbatim>\<open>while count < X.shape[0]:\<close>
  \<^verbatim>\<open>    draw = indices[count:min(count+batch_size, X.shape[0])]\<close>
  \<^verbatim>\<open>    yield X[draw, :], Y[draw]\<close>
  \<^verbatim>\<open>    count += batch_size\<close>

  The model collects what the generator yields until it is exhausted. With a batch size
  below one the loop never ends, which is the value \<open>None\<close>.
\<close>

partial_function (option) batcher_loop ::
  "'a ndarray \<Rightarrow> 'b list \<Rightarrow> int \<Rightarrow> int \<Rightarrow> (error + ('a list list \<times> 'b list) list) option" where
  "batcher_loop X Y batch_size count =
     (if count < int (shape0 X) then
        (case np_take_rows X (py_slice (np_arange (shape0 X)) count (min (count + batch_size) (int (shape0 X)))) of
           Inl e \<Rightarrow> Some (Inl e)
         | Inr xb \<Rightarrow>
             (case np_take Y (py_slice (np_arange (shape0 X)) count (min (count + batch_size) (int (shape0 X)))) of
                Inl e \<Rightarrow> Some (Inl e)
              | Inr yb \<Rightarrow>
                  Option.bind (batcher_loop X Y batch_size (count + batch_size))
                    (\<lambda>r. Some (case r of Inl e \<Rightarrow> Inl e | Inr bs \<Rightarrow> Inr ((xb, yb) # bs)))))
      else Some (Inr []))"

declare batcher_loop.simps [code]

definition data_batcher ::
  "'a ndarray \<Rightarrow> 'b list \<Rightarrow> int \<Rightarrow> (error + ('a list list \<times> 'b list) list) option" where
  "data_batcher X Y batch_size = batcher_loop X Y batch_size 0"

section \<open>Properties\<close>

subsection \<open>Comprehensions, loops and subscripts\<close>

lemma comprehension_total:
  "(\<And>x. x \<in> set xs \<Longrightarrow> f x = Inr (g x)) \<Longrightarrow> comprehension f xs = Inr (map g xs)"
  by (induction xs) simp_all

lemma comprehension_results:
  "comprehension f xs = Inr ys \<Longrightarrow> y \<in> set ys \<Longrightarrow> \<exists>x\<in>set xs. f x = Inr y"
proof (induction xs arbitrary: ys)
  case Nil
  then show ?case by simp
next
  case (Cons x xs)
  then show ?case by (auto split: sum.splits)
qed

lemma comprehension_error:
  "comprehension f xs = Inl e \<Longrightarrow> \<exists>x\<in>set xs. f x = Inl e"
  by (induction xs) (auto split: sum.splits)

lemma for_loop_total:
  "(\<And>s x. x \<in> set xs \<Longrightarrow> body s x = Inr (upd s x)) \<Longrightarrow>
     for_loop body xs s = Inr (fold (\<lambda>x s. upd s x) xs s)"
  by (induction xs arbitrary: s) simp_all

lemma for_loop_error:
  "for_loop body xs s = Inl e \<Longrightarrow> \<exists>s' x. x \<in> set xs \<and> body s' x = Inl e"
proof (induction xs arbitrary: s)
  case Nil
  then show ?case by simp
next
  case (Cons x xs)
  show ?case
  proof (cases "body s x")
    case (Inl e')
    with Cons.prems have "body s x = Inl e" by simp
    then show ?thesis by auto
  next
    case (Inr s')
    with Cons.prems have "for_loop body xs s' = Inl e" by simp
    from Cons.IH [OF this] show ?thesis by auto
  qed
qed

lemma fold_append_pair:
  "fold (\<lambda>x s. (fst s @ [f x], snd s @ [g x])) xs (X, Y) = (X @ map f xs, Y @ map g xs)"
  by (induction xs arbitrary: X Y) simp_all

lemma py_index_in_range:
  "0 \<le> i \<Longrightarrow> i < int (length xs) \<Longrightarrow> py_index xs i = Inr (xs ! nat i)"
  by (simp add: py_index_def)

lemma py_index_member: "py_index xs i = Inr x \<Longrightarrow> x \<in> set xs"
  by (auto simp: py_index_def split: if_splits)

lemma py_index_error: "py_index xs i = Inl e \<Longrightarrow> e = IndexError"
  by (auto simp: py_index_def split: if_splits)

lemma offsets_without_centre:
  assumes "0 \<le> W"
  shows "filter (\<lambda>j. j \<noteq> 0) (py_range (- W) (W + 1)) = [- W..- 1] @ [1..W]"
proof -
  have "[- W..W] = [- W..0 - 1] @ 0 # [0 + 1..W]"
    using assms by (intro upto_split3) auto
  moreover have "filter (\<lambda>j. j \<noteq> 0) [- W..- 1] = [- W..- 1]"
    by (rule filter_True) auto
  moreover have "filter (\<lambda>j. j \<noteq> 0) [1..W] = [1..W]"
    by (rule filter_True) auto
  ultimately show ?thesis by (simp add: py_range_def)
qed

lemma dict_get_known: "d w = Some i \<Longrightarrow> dict_get d w = Inr i"
  by (simp add: dict_get_def)

lemma window_in_range:
  assumes "0 \<le> W" "W \<le> i" "i < int (length text) - W"
  shows "window text W i = Inr (map (\<lambda>j. text ! nat (i + j)) ([- W..- 1] @ [1..W]))"
proof -
  have "comprehension (\<lambda>j. py_index text (i + j)) ([- W..- 1] @ [1..W])
          = Inr (map (\<lambda>j. text ! nat (i + j)) ([- W..- 1] @ [1..W]))"
  proof (rule comprehension_total)
    fix j assume "j \<in> set ([- W..- 1] @ [1..W])"
    then have "- W \<le> j" "j \<le> W" by auto
    with assms show "py_index text (i + j) = Inr (text ! nat (i + j))"
      by (intro py_index_in_range) auto
  qed
  then show ?thesis
    by (simp add: window_def offsets_without_centre [OF assms(1)])
qed

lemma make_context_vector_known:
  "(\<And>w. w \<in> set context \<Longrightarrow> d w = Some (ix w)) \<Longrightarrow>
     make_context_vector context d = Inr (map ix context)"
  unfolding make_context_vector_def
  by (rule comprehension_total) (simp add: dict_get_known)

lemma example_step_in_range:
  assumes "0 \<le> W" "W \<le> i" "i < int (length text) - W"
    and known: "\<And>w. w \<in> set text \<Longrightarrow> d w = Some (ix w)"
  shows "example_step text d W s i =
           Inr (fst s @ [map (\<lambda>j. ix (text ! nat (i + j))) ([- W..- 1] @ [1..W])],
                snd s @ [ix (text ! nat i)])"
proof -
  let ?ctx = "map (\<lambda>j. text ! nat (i + j)) ([- W..- 1] @ [1..W])"
  have w: "window text W i = Inr ?ctx"
    using assms(1-3) by (rule window_in_range)
  have t: "py_index text i = Inr (text ! nat i)"
    using assms(1-3) by (intro py_index_in_range) auto
  have mem: "text ! nat i \<in> set text"
    using t by (rule py_index_member)
  have "set ?ctx \<subseteq> set text"
  proof
    fix x assume "x \<in> set ?ctx"
    then have "x \<in> (\<lambda>j. text ! nat (i + j)) ` set ([- W..- 1] @ [1..W])"
      by (simp only: set_map)
    then obtain j where "j \<in> set ([- W..- 1] @ [1..W])" and x: "x = text ! nat (i + j)"
      by (rule imageE)
    then have j: "- W \<le> j" "j \<le> W" by auto
    from j assms(1-3) have "nat (i + j) < length text" by auto
    with x show "x \<in> set text" by simp
  qed
  then have c: "make_context_vector ?ctx d = Inr (map ix ?ctx)"
    by (intro make_context_vector_known known) auto
  have g: "dict_get d (text ! nat i) = Inr (ix (text ! nat i))"
    by (intro dict_get_known known mem)
  show ?thesis
    by (simp add: example_step_def w t c g comp_def del: map_append)
qed

lemma make_examples_closed:
  assumes "0 \<le> W" and known: "\<And>w. w \<in> set text \<Longrightarrow> d w = Some (ix w)"
  shows "make_examples text d W =
           Inr (map (\<lambda>i. map (\<lambda>j. ix (text ! nat (i + j))) ([- W..- 1] @ [1..W]))
                  [W..int (length text) - W - 1],
                map (\<lambda>i. ix (text ! nat i)) [W..int (length text) - W - 1])"
proof -
  let ?ctx = "\<lambda>i. map (\<lambda>j. ix (text ! nat (i + j))) ([- W..- 1] @ [1..W])"
  let ?tgt = "\<lambda>i. ix (text ! nat i)"
  let ?is = "[W..int (length text) - W - 1]"
  have "for_loop (example_step text d W) ?is ([], []) =
          Inr (fold (\<lambda>i s. (fst s @ [?ctx i], snd s @ [?tgt i])) ?is ([], []))"
  proof (rule for_loop_total)
    fix s i assume "i \<in> set ?is"
    then have "W \<le> i" "i < int (length text) - W" by auto
    with assms(1) show "example_step text d W s i = (Inr (fst s @ [?ctx i], snd s @ [?tgt i]))"
      by (intro example_step_in_range known) auto
  qed
  then show ?thesis
    by (simp add: make_examples_def py_range_def fold_append_pair del: map_append)
qed

subsection \<open>The id mapping\<close>

lemma fold_enumerate_Cons:
  "fold (\<lambda>p d. d(snd p \<mapsto> fst p)) (enumerate n (x # xs)) m =
     fold (\<lambda>p d. d(snd p \<mapsto> fst p)) (enumerate (Suc n) xs) (m(x \<mapsto> n))"
  by simp

lemma fold_enumerate_dom:
  "dom (fold (\<lambda>p d. d(snd p \<mapsto> fst p)) (enumerate n xs) m) = dom m \<union> set xs"
proof (induction xs arbitrary: n m)
  case Nil
  then show ?case by simp
next
  case (Cons x xs)
  show ?case unfolding fold_enumerate_Cons Cons.IH by simp
qed

lemma dom_word_to_ix: "dom (word_to_ix enum) = set enum"
  by (simp add: word_to_ix_def fold_enumerate_dom)

lemma fold_enumerate_other:
  "w \<notin> set xs \<Longrightarrow> fold (\<lambda>p d. d(snd p \<mapsto> fst p)) (enumerate n xs) m w = m w"
proof (induction xs arbitrary: n m)
  case Nil
  then show ?case by simp
next
  case (Cons x xs)
  then have w: "w \<notin> set xs" "w \<noteq> x" by auto
  have "fold (\<lambda>p d. d(snd p \<mapsto> fst p)) (enumerate n (x # xs)) m w
          = fold (\<lambda>p d. d(snd p \<mapsto> fst p)) (enumerate (Suc n) xs) (m(x \<mapsto> n)) w"
    by (simp only: fold_enumerate_Cons)
  also have "\<dots> = (m(x \<mapsto> n)) w" using w(1) by (rule Cons.IH)
  also have "\<dots> = m w" using w(2) by simp
  finally show ?case .
qed

lemma fold_enumerate_nth:
  "distinct xs \<Longrightarrow> i < length xs \<Longrightarrow>
     fold (\<lambda>p d. d(snd p \<mapsto> fst p)) (enumerate n xs) m (xs ! i) = Some (n + i)"
proof (induction xs arbitrary: n m i)
  case Nil
  then show ?case by simp
next
  case (Cons x xs)
  have step: "fold (\<lambda>p d. d(snd p \<mapsto> fst p)) (enumerate n (x # xs)) m ((x # xs) ! i)
          = fold (\<lambda>p d. d(snd p \<mapsto> fst p)) (enumerate (Suc n) xs) (m(x \<mapsto> n)) ((x # xs) ! i)"
    by (simp only: fold_enumerate_Cons)
  show ?case
  proof (cases i)
    case 0
    from Cons.prems have "x \<notin> set xs" by simp
    then have "fold (\<lambda>p d. d(snd p \<mapsto> fst p)) (enumerate (Suc n) xs) (m(x \<mapsto> n)) x
                 = (m(x \<mapsto> n)) x"
      by (rule fold_enumerate_other)
    also have "\<dots> = Some (n + i)" using 0 by simp
    finally show ?thesis unfolding step using 0 by (simp only: nth_Cons_0)
  next
    case (Suc k)
    with Cons.prems have "distinct xs" "k < length xs" by simp_all
    then have "fold (\<lambda>p d. d(snd p \<mapsto> fst p)) (enumerate (Suc n) xs) (m(x \<mapsto> n)) (xs ! k)
                 = Some (Suc n + k)"
      by (rule Cons.IH)
    also have "\<dots> = Some (n + i)" using Suc by simp
    finally show ?thesis unfolding step using Suc by (simp only: nth_Cons_Suc)
  qed
qed

lemma word_to_ix_nth:
  "distinct enum \<Longrightarrow> i < length enum \<Longrightarrow> word_to_ix enum (enum ! i) = Some i"
  using fold_enumerate_nth [of enum i 0 Map.empty] by (simp add: word_to_ix_def)

subsection \<open>The dataset\<close>

text \<open>
  Claim C2. The tokens a, b, c, d, e, all of them in the vocabulary, with the ids a = 0,
  b = 1, c = 2, d = 3, e = 4 and a window radius of 2 give exactly one example: the context
  \<open>[0, 1, 3, 4]\<close> with the target \<open>2\<close>.
\<close>
theorem windowing_example:
  "map (word_to_ix [''a'', ''b'', ''c'', ''d'', ''e'']) [''a'', ''b'', ''c'', ''d'', ''e'']
     = [Some 0, Some 1, Some 2, Some 3, Some 4]
   \<and> filter_tokens [''a'', ''b'', ''c'', ''d'', ''e''] (set [''a'', ''b'', ''c'', ''d'', ''e''])
     = [''a'', ''b'', ''c'', ''d'', ''e'']
   \<and> make_examples (filter_tokens [''a'', ''b'', ''c'', ''d'', ''e''] (set [''a'', ''b'', ''c'', ''d'', ''e'']))
     (word_to_ix [''a'', ''b'', ''c'', ''d'', ''e'']) 2 = Inr ([[0, 1, 3, 4]], [2])"
  by code_simp

text \<open>
  Claim C1. For a window radius \<open>W \<ge> 1\<close> and a text all of whose tokens have an id,
  the loop raises nothing and returns one example for each index \<open>i\<close> with
  \<open>W \<le> i < L - W\<close>, in increasing order, \<open>max 0 (L - 2 W)\<close> of them: the context of
  the example at \<open>i\<close> is the ids of the tokens at the offsets \<open>- W, \<dots>, - 1, 1, \<dots>, W\<close>
  from \<open>i\<close>, left to right, \<open>2 W\<close> of them without the centre, and its target is the id
  of the token at \<open>i\<close>.
\<close>
theorem make_examples_windows:
  assumes "1 \<le> W" and "\<forall>w\<in>set text. d w = Some (ix w)"
  shows "make_examples text d W =
           Inr (map (\<lambda>i. map (\<lambda>j. ix (text ! nat (i + j))) ([- W..- 1] @ [1..W]))
                  [W..int (length text) - W - 1],
                map (\<lambda>i. ix (text ! nat i)) [W..int (length text) - W - 1])
         \<and> length [W..int (length text) - W - 1] = nat (max 0 (int (length text) - 2 * W))
         \<and> length ([- W..- 1] @ [1..W]) = nat (2 * W)"
proof -
  from assms(1) have "0 \<le> W" by simp
  then have "make_examples text d W =
           Inr (map (\<lambda>i. map (\<lambda>j. ix (text ! nat (i + j))) ([- W..- 1] @ [1..W]))
                  [W..int (length text) - W - 1],
                map (\<lambda>i. ix (text ! nat i)) [W..int (length text) - W - 1])"
    using assms(2) by (intro make_examples_closed) auto
  moreover have "length [W..int (length text) - W - 1] = nat (max 0 (int (length text) - 2 * W))"
    by simp
  moreover have "length ([- W..- 1] @ [1..W]) = nat (2 * W)"
    using assms(1) by simp
  ultimately show ?thesis by blast
qed

theorem make_examples_windows_witness:
  "(1::int) \<le> 1 \<and>
   make_examples [''a'', ''b'', ''a'', ''c''] (word_to_ix [''a'', ''b'', ''c'']) 1
     = Inr ([[0, 0], [1, 2]], [1, 0])"
proof -
  let ?ix = "\<lambda>w. if w = ''a'' then 0 else if w = ''b'' then 1 else (2::nat)"
  have h: "\<forall>w\<in>set [''a'', ''b'', ''a'', ''c'']. word_to_ix [''a'', ''b'', ''c''] w = Some (?ix w)"
    by (simp add: word_to_ix_def enumerate_eq_zip)
  have "(1::int) \<le> 1" by simp
  from make_examples_windows [OF this h] show ?thesis
    by (simp add: upto_rec1 nat_add_distrib)
qed

lemma make_examples_short:
  "int (length text) < 2 * W + 1 \<Longrightarrow> make_examples text d W = Inr ([], [])"
  by (simp add: make_examples_def py_range_def)

text \<open>
  Claim C5, as the code has it. A text shorter than \<open>2 W + 1\<close> leaves the range of the
  loop empty: the result is the empty dataset, returned without any exception, and no
  token is looked up.
\<close>
theorem short_text_no_examples:
  "int (length text) < 2 * W + 1 \<Longrightarrow> make_examples text d W = Inr ([], [])"
  by (rule make_examples_short)

theorem short_text_no_examples_witness:
  "int (length [''a'', ''b'', ''c'', ''d'']) < 2 * 2 + 1 \<and>
   make_examples [''a'', ''b'', ''c'', ''d''] (word_to_ix [''a'', ''b'']) 2 = Inr ([], [])"
  using short_text_no_examples [of "[''a'', ''b'', ''c'', ''d'']" 2 "word_to_ix [''a'', ''b'']"]
  by simp

text \<open>
  Claim C5 as the specification words it asks for an \<^verbatim>\<open>InsufficientDataError\<close>.
  Four tokens with a window radius of 2 return the empty dataset instead.
\<close>
theorem short_text_counterexample:
  "make_examples [''a'', ''b'', ''a'', ''b''] (word_to_ix [''a'', ''b'']) 2 = Inr ([], []) \<and>
   make_examples [''a'', ''b'', ''a'', ''b''] (word_to_ix [''a'', ''b'']) 2 \<noteq> Inl InsufficientDataError"
  by code_simp

text \<open>
  Claim C6, as the code has it. For a window radius \<open>W \<ge> 0\<close>, a text of length exactly
  \<open>2 W + 1\<close> gives exactly one example, whose centre is the token at index \<open>W\<close>; every
  text shorter than \<open>2 W + 1\<close>, the one of length \<open>2 W\<close> among them, gives the empty
  dataset and no exception.
\<close>
theorem boundary_lengths:
  assumes "0 \<le> W" and "\<forall>w\<in>set text. d w = Some (ix w)"
  shows "(int (length text) = 2 * W + 1 \<longrightarrow>
            make_examples text d W =
              Inr ([map (\<lambda>j. ix (text ! nat (W + j))) ([- W..- 1] @ [1..W])], [ix (text ! nat W)]))
       \<and> (int (length text) < 2 * W + 1 \<longrightarrow> make_examples text d W = Inr ([], []))"
proof (intro conjI impI)
  assume len: "int (length text) = 2 * W + 1"
  then have "[W..int (length text) - W - 1] = [W]" by (simp add: upto_rec1)
  with make_examples_closed [of W "text" d ix] assms
  show "make_examples text d W =
          Inr ([map (\<lambda>j. ix (text ! nat (W + j))) ([- W..- 1] @ [1..W])], [ix (text ! nat W)])"
    by (simp del: map_append)
next
  assume "int (length text) < 2 * W + 1"
  then show "make_examples text d W = Inr ([], [])" by (rule make_examples_short)
qed

theorem boundary_lengths_witness:
  "(0::int) \<le> 1 \<and> int (length [''a'', ''b'', ''c'']) = 2 * 1 + 1 \<and>
   make_examples [''a'', ''b'', ''c''] (word_to_ix [''a'', ''b'', ''c'']) 1 = Inr ([[0, 2]], [1]) \<and>
   int (length [''a'', ''b'']) < 2 * 1 + 1 \<and>
   make_examples [''a'', ''b''] (word_to_ix [''a'', ''b'', ''c'']) 1 = Inr ([], [])"
proof -
  let ?ix = "\<lambda>w. if w = ''a'' then 0 else if w = ''b'' then 1 else (2::nat)"
  have h3: "\<forall>w\<in>set [''a'', ''b'', ''c'']. word_to_ix [''a'', ''b'', ''c''] w = Some (?ix w)"
    by (simp add: word_to_ix_def enumerate_eq_zip)
  have h2: "\<forall>w\<in>set [''a'', ''b'']. word_to_ix [''a'', ''b'', ''c''] w = Some (?ix w)"
    by (simp add: word_to_ix_def enumerate_eq_zip)
  have w: "(0::int) \<le> 1" by simp
  from boundary_lengths [OF w h3] boundary_lengths [OF w h2] show ?thesis
    by (simp add: upto_rec1)
qed

text \<open>
  Claim C6 as the specification words it promises one example for a text of length
  \<open>2 W\<close>. Two tokens with a window radius of 1 give none.
\<close>
theorem boundary_counterexample:
  "int (length [''a'', ''b'']) = 2 * 1 \<and>
   make_examples [''a'', ''b''] (word_to_ix [''a'', ''b'']) 1 = Inr ([], [])"
  by code_simp

lemma example_step_no_KeyError:
  assumes "set text \<subseteq> dom d"
  shows "example_step text d W s i \<noteq> Inl KeyError"
proof
  assume e: "example_step text d W s i = Inl KeyError"
  have wnd: "window text W i \<noteq> Inl KeyError"
  proof
    assume "window text W i = Inl KeyError"
    then obtain j where "py_index text (i + j) = Inl KeyError"
      unfolding window_def by (blast dest: comprehension_error)
    then show False by (auto dest: py_index_error)
  qed
  have idx: "py_index text i \<noteq> Inl KeyError"
    by (auto dest: py_index_error)
  from e wnd idx obtain ctx target where
    c: "window text W i = Inr ctx" and t: "py_index text i = Inr target"
    by (auto simp: example_step_def split: sum.splits)
  have "set ctx \<subseteq> set text"
  proof
    fix x assume "x \<in> set ctx"
    with c obtain j where "py_index text (i + j) = Inr x"
      unfolding window_def by (blast dest: comprehension_results)
    then show "x \<in> set text" by (rule py_index_member)
  qed
  with assms have known: "\<And>w. w \<in> set ctx \<Longrightarrow> d w = Some (the (d w))" by auto
  have v: "make_context_vector ctx d = Inr (map (\<lambda>w. the (d w)) ctx)"
    by (rule make_context_vector_known) (rule known)
  from t have "target \<in> set text" by (rule py_index_member)
  with assms have g: "dict_get d target = Inr (the (d target))"
    by (auto simp: dict_get_def)
  from e c t v g show False by (simp add: example_step_def)
qed

lemma make_examples_no_KeyError:
  assumes "set text \<subseteq> dom d"
  shows "make_examples text d W \<noteq> Inl KeyError"
proof
  assume "make_examples text d W = Inl KeyError"
  then obtain s i where "example_step text d W s i = Inl KeyError"
    unfolding make_examples_def by (blast dest: for_loop_error)
  with example_step_no_KeyError [OF assms] show False by blast
qed

text \<open>
  Claim C8. When the text is what the filtering step leaves of any raw text for the
  vocabulary, and the id mapping is built by enumerating that same vocabulary, every
  token of the text has an id, and the loop never ends in the \<^verbatim>\<open>KeyError\<close> of a
  failed lookup, whatever the window radius.
\<close>
theorem lookups_succeed:
  assumes "set enum = vocab"
  shows "(\<forall>w\<in>set (filter_tokens raw_text vocab). word_to_ix enum w \<noteq> None)
       \<and> make_examples (filter_tokens raw_text vocab) (word_to_ix enum) W \<noteq> Inl KeyError"
proof -
  have sub: "set (filter_tokens raw_text vocab) \<subseteq> dom (word_to_ix enum)"
    using assms by (auto simp: filter_tokens_def dom_word_to_ix)
  then have "\<forall>w\<in>set (filter_tokens raw_text vocab). word_to_ix enum w \<noteq> None" by blast
  with make_examples_no_KeyError [OF sub] show ?thesis by blast
qed

theorem lookups_succeed_witness:
  "set [''b'', ''a''] = {''a'', ''b''} \<and>
   word_to_ix [''b'', ''a''] ''a'' \<noteq> None \<and>
   make_examples (filter_tokens [''a'', ''x'', ''b'', ''a''] {''a'', ''b''}) (word_to_ix [''b'', ''a'']) 1
     \<noteq> Inl KeyError"
proof -
  have h: "set [''b'', ''a''] = {''a'', ''b''}" by auto
  from lookups_succeed [OF h, of "[''a'', ''x'', ''b'', ''a'']" 1] h show ?thesis
    by (simp add: filter_tokens_def)
qed

subsection \<open>The filtered text\<close>

lemma count_list_filter_eq:
  "count_list (filter P xs) x = (if P x then count_list xs x else 0)"
  by (induction xs) auto

text \<open>
  Claim C4. For every raw text and every vocabulary, what the filter returns is a
  subsequence of the raw text (so the relative order is kept), each of its elements is in
  the vocabulary, and no occurrence of a vocabulary member is dropped: every such word
  occurs as often as in the raw text, and every subsequence of the raw text made of
  vocabulary members is a subsequence of the result.
\<close>
theorem filter_tokens_subsequence:
  "subseq (filter_tokens raw_text vocab) raw_text
   \<and> (\<forall>w\<in>set (filter_tokens raw_text vocab). w \<in> vocab)
   \<and> (\<forall>w\<in>vocab. count_list (filter_tokens raw_text vocab) w = count_list raw_text w)
   \<and> (\<forall>ys. subseq ys raw_text \<and> set ys \<subseteq> vocab \<longrightarrow> subseq ys (filter_tokens raw_text vocab))"
proof (intro conjI allI impI ballI)
  show "subseq (filter_tokens raw_text vocab) raw_text"
    by (simp add: filter_tokens_def)
next
  fix w assume "w \<in> set (filter_tokens raw_text vocab)"
  then show "w \<in> vocab" by (simp add: filter_tokens_def)
next
  fix w assume "w \<in> vocab"
  then show "count_list (filter_tokens raw_text vocab) w = count_list raw_text w"
    by (simp add: filter_tokens_def count_list_filter_eq)
next
  fix ys assume a: "subseq ys raw_text \<and> set ys \<subseteq> vocab"
  then have "subseq (filter (\<lambda>r. r \<in> vocab) ys) (filter (\<lambda>r. r \<in> vocab) raw_text)"
    by simp
  moreover from a have "filter (\<lambda>r. r \<in> vocab) ys = ys"
    by (intro filter_True) auto
  ultimately show "subseq ys (filter_tokens raw_text vocab)"
    by (simp add: filter_tokens_def)
qed

theorem filter_tokens_subsequence_witness:
  "filter_tokens [''a'', ''x'', ''b'', ''a''] {''a'', ''b''} = [''a'', ''b'', ''a'']
   \<and> subseq [''a'', ''b'', ''a''] [''a'', ''x'', ''b'', ''a'']
   \<and> count_list (filter_tokens [''a'', ''x'', ''b'', ''a''] {''a'', ''b''}) ''a'' = 2"
  using filter_tokens_subsequence [of "[''a'', ''x'', ''b'', ''a'']" "{''a'', ''b''}"]
  by (simp add: filter_tokens_def)

subsection \<open>The vocabulary\<close>

text \<open>
  Claim C7, as the code has it. With a size \<open>K \<le> 0\<close> the ranking is empty, the unzipped
  list has no element 0, and the cell ends in Python's \<^verbatim>\<open>IndexError\<close>, whatever the
  text.
\<close>
theorem nonpositive_size_fails:
  "K \<le> 0 \<Longrightarrow> build_vocabulary keys raw_text K = Inl IndexError"
  by (simp add: build_vocabulary_def most_common_def)

theorem nonpositive_size_fails_witness:
  "(- 3 :: int) \<le> 0 \<and> build_vocabulary [''a'', ''b''] [''a'', ''b'', ''a''] (- 3) = Inl IndexError"
  using nonpositive_size_fails [of "- 3" "[''a'', ''b'']" "[''a'', ''b'', ''a'']"] by simp

text \<open>
  Claim C7 as the specification words it names the failure \<^verbatim>\<open>InvalidSizeError\<close>. The
  code checks no size; the exception at \<open>K = 0\<close> is the \<^verbatim>\<open>IndexError\<close> of the
  subscript.
\<close>
theorem zero_size_counterexample:
  "build_vocabulary [''a'', ''b''] [''a'', ''b'', ''a''] 0 = Inl IndexError \<and>
   build_vocabulary [''a'', ''b''] [''a'', ''b'', ''a''] 0 \<noteq> Inl InvalidSizeError"
  by (simp add: build_vocabulary_def most_common_def)

lemma map_fst_Counter: "map fst (Counter keys raw_text) = keys"
  by (simp add: Counter_def comp_def)

lemma distinct_map_fst_sort_key:
  "distinct (map fst (sort_key f xs)) = distinct (map fst xs)"
  by (simp add: distinct_map)

lemma word_to_ix_bij:
  assumes "distinct enum"
  shows "bij_betw (\<lambda>w. the (word_to_ix enum w)) (set enum) {0..<length enum}"
proof (rule bij_betw_byWitness [where f' = "nth enum"])
  show "\<forall>w\<in>set enum. enum ! the (word_to_ix enum w) = w"
  proof
    fix w assume "w \<in> set enum"
    then obtain i where "i < length enum" "enum ! i = w" by (auto simp: in_set_conv_nth)
    with word_to_ix_nth [OF assms, of i] show "enum ! the (word_to_ix enum w) = w" by simp
  qed
  show "\<forall>i\<in>{0..<length enum}. the (word_to_ix enum (enum ! i)) = i"
    using word_to_ix_nth [OF assms] by simp
  show "(\<lambda>w. the (word_to_ix enum w)) ` set enum \<subseteq> {0..<length enum}"
  proof
    fix i assume "i \<in> (\<lambda>w. the (word_to_ix enum w)) ` set enum"
    then obtain w where "w \<in> set enum" and i: "i = the (word_to_ix enum w)" by auto
    then obtain k where "k < length enum" "enum ! k = w" by (auto simp: in_set_conv_nth)
    with word_to_ix_nth [OF assms, of k] i show "i \<in> {0..<length enum}" by simp
  qed
  show "(!) enum ` {0..<length enum} \<subseteq> set enum" by auto
qed

lemma build_vocabulary_Inr:
  assumes "distinct keys" "keys \<noteq> []" "1 \<le> K"
  shows "build_vocabulary keys raw_text K =
           Inr (set (take (nat K) (map fst (sort_key (\<lambda>p. - int (snd p)) (Counter keys raw_text)))))"
    and "distinct (take (nat K) (map fst (sort_key (\<lambda>p. - int (snd p)) (Counter keys raw_text))))"
    and "length (take (nat K) (map fst (sort_key (\<lambda>p. - int (snd p)) (Counter keys raw_text))))
           = min (nat K) (length keys)"
    and "set (take (nat K) (map fst (sort_key (\<lambda>p. - int (snd p)) (Counter keys raw_text))))
           \<subseteq> set keys"
proof -
  let ?sorted = "sort_key (\<lambda>p. - int (snd p)) (Counter keys raw_text)"
  have len: "length ?sorted = length keys" by (simp add: Counter_def)
  from assms(2) len have "?sorted \<noteq> []" by (metis length_0_conv)
  moreover from assms(3) have "nat K \<noteq> 0" by simp
  ultimately have "take (nat K) ?sorted \<noteq> []" by simp
  then obtain p ps where "take (nat K) ?sorted = p # ps"
    by (cases "take (nat K) ?sorted") auto
  then have "build_vocabulary keys raw_text K = Inr (set (map fst (take (nat K) ?sorted)))"
    by (simp add: build_vocabulary_def most_common_def)
  then show "build_vocabulary keys raw_text K = Inr (set (take (nat K) (map fst ?sorted)))"
    by (simp add: take_map)
  have "distinct (map fst ?sorted)"
    using assms(1) by (simp add: distinct_map_fst_sort_key map_fst_Counter)
  then show "distinct (take (nat K) (map fst ?sorted))" by (rule distinct_take)
  show "length (take (nat K) (map fst ?sorted)) = min (nat K) (length keys)"
    using len by simp
  have "set (map fst ?sorted) = set keys"
    using map_fst_Counter [of keys raw_text] by (metis set_map set_sort)
  then show "set (take (nat K) (map fst ?sorted)) \<subseteq> set keys"
    using set_take_subset by fastforce
qed

text \<open>
  Claim C3, as the code has it. For every text that is not empty and every size
  \<open>K \<ge> 1\<close>, whatever the order in which the counter yields its keys, the cell returns a
  vocabulary of exactly \<open>min K n\<close> words of the text, \<open>n\<close> the number of distinct words; and
  for every order in which the vocabulary is enumerated, the id mapping is defined on the
  vocabulary exactly and is a bijection from it onto the ids \<open>0, \<dots>, |vocab| - 1\<close>.
\<close>
theorem vocabulary_size_and_ids:
  assumes "distinct keys" and "set keys = set raw_text" and "raw_text \<noteq> []" and "1 \<le> K"
  shows "\<exists>vocab. build_vocabulary keys raw_text K = Inr vocab
           \<and> vocab \<subseteq> set raw_text
           \<and> card vocab = min (nat K) (card (set raw_text))
           \<and> (\<forall>enum. distinct enum \<and> set enum = vocab \<longrightarrow>
                 dom (word_to_ix enum) = vocab
                 \<and> bij_betw (\<lambda>w. the (word_to_ix enum w)) vocab {0..<card vocab})"
proof -
  let ?top = "take (nat K) (map fst (sort_key (\<lambda>p. - int (snd p)) (Counter keys raw_text)))"
  from assms(2,3) have ne: "keys \<noteq> []" by auto
  note bv = build_vocabulary_Inr [OF assms(1) ne assms(4), of raw_text]
  have "card (set ?top) = length ?top" using bv(2) by (rule distinct_card)
  also have "\<dots> = min (nat K) (length keys)" by (rule bv(3))
  also have "length keys = card (set raw_text)"
    using assms(1,2) distinct_card by fastforce
  finally have card: "card (set ?top) = min (nat K) (card (set raw_text))" .
  have ids: "dom (word_to_ix enum) = set ?top
               \<and> bij_betw (\<lambda>w. the (word_to_ix enum w)) (set ?top) {0..<card (set ?top)}"
    if "distinct enum \<and> set enum = set ?top" for enum
  proof -
    from that have "card (set ?top) = length enum" by (metis distinct_card)
    with that word_to_ix_bij [of enum] dom_word_to_ix [of enum] show ?thesis by simp
  qed
  from bv(1) bv(4) assms(2) card ids show ?thesis by blast
qed

theorem vocabulary_size_and_ids_witness:
  "distinct [''b'', ''a''] \<and> set [''b'', ''a''] = set [''a'', ''b'', ''a'']
   \<and> [''a'', ''b'', ''a''] \<noteq> [] \<and> (1::int) \<le> 1
   \<and> (\<exists>vocab. build_vocabulary [''b'', ''a''] [''a'', ''b'', ''a''] 1 = Inr vocab
           \<and> vocab \<subseteq> set [''a'', ''b'', ''a'']
           \<and> card vocab = min (nat 1) (card (set [''a'', ''b'', ''a'']))
           \<and> (\<forall>enum. distinct enum \<and> set enum = vocab \<longrightarrow>
                 dom (word_to_ix enum) = vocab
                 \<and> bij_betw (\<lambda>w. the (word_to_ix enum w)) vocab {0..<card vocab}))
   \<and> build_vocabulary [''b'', ''a''] [''a'', ''b'', ''a''] 1 = Inr {''a''}"
proof -
  have h1: "distinct [''b'', ''a'']" by simp
  have h2: "set [''b'', ''a''] = set [''a'', ''b'', ''a'']" by auto
  have h3: "[''a'', ''b'', ''a''] \<noteq> []" by simp
  have h4: "(1::int) \<le> 1" by simp
  have v: "build_vocabulary [''b'', ''a''] [''a'', ''b'', ''a''] 1 = Inr {''a''}"
    by (simp add: build_vocabulary_def most_common_def Counter_def)
  from vocabulary_size_and_ids [OF h1 h2 h3 h4] h1 h2 h3 h4 v show ?thesis by blast
qed

text \<open>
  Claim C3 as the specification words it covers the empty text, for which it promises a
  vocabulary of \<open>min K 0 = 0\<close> entries. The code raises \<^verbatim>\<open>IndexError\<close> there.
\<close>
theorem empty_text_counterexample:
  "build_vocabulary [] [] 1 = Inl IndexError"
  by (simp add: build_vocabulary_def most_common_def Counter_def)

text \<open>
  Property X1. The vocabulary holds the most frequent words: when the cell returns a
  vocabulary, each of its words occurs in the raw text at least as often as every word of
  the raw text that is left out, whatever the order in which the counter yields its keys.
\<close>
theorem vocabulary_most_frequent:
  assumes "distinct keys" and "set keys = set raw_text"
    and "build_vocabulary keys raw_text K = Inr vocab"
    and "w \<in> vocab" and "u \<in> set raw_text" and "u \<notin> vocab"
  shows "count_list raw_text u \<le> count_list raw_text w"
proof -
  let ?f = "\<lambda>p :: token \<times> nat. - int (snd p)"
  let ?S = "sort_key ?f (Counter keys raw_text)"
  have items: "snd p = count_list raw_text (fst p)" if "p \<in> set ?S" for p
    using that by (auto simp: Counter_def)
  from assms(3) have vocab: "vocab = fst ` set (take (nat K) ?S)"
    by (auto simp: build_vocabulary_def most_common_def split: list.splits)
  from assms(4) obtain i where i: "i < length (take (nat K) ?S)" "w = fst (take (nat K) ?S ! i)"
    unfolding vocab by (auto simp: in_set_conv_nth)
  then have i': "i < nat K" "i < length ?S" "w = fst (?S ! i)" by simp_all
  have "set (map fst ?S) = set keys" by (simp add: Counter_def image_image)
  with assms(2,5) have "u \<in> fst ` set ?S" by simp
  then obtain p where p: "p \<in> set ?S" "u = fst p" by blast
  from p(1) obtain j where "j < length ?S" "?S ! j = p"
    unfolding in_set_conv_nth by blast
  with p(2) have j: "j < length ?S" "u = fst (?S ! j)" by simp_all
  have "nat K \<le> j"
  proof (rule ccontr)
    assume "\<not> nat K \<le> j"
    with j have "j < length (take (nat K) ?S)" "take (nat K) ?S ! j = ?S ! j" by simp_all
    then have "u \<in> fst ` set (take (nat K) ?S)" using j(2) by (metis imageI nth_mem)
    with assms(6) vocab show False by simp
  qed
  with i'(1) have "i \<le> j" by simp
  have "sorted (map ?f ?S)" by (rule sorted_sort_key)
  from sorted_nth_mono [OF this \<open>i \<le> j\<close>] j(1) i'(2) have "?f (?S ! i) \<le> ?f (?S ! j)" by simp
  moreover have "snd (?S ! i) = count_list raw_text w"
    using items [OF nth_mem [OF i'(2)]] i'(3) by simp
  moreover have "snd (?S ! j) = count_list raw_text u"
    using items [OF nth_mem [OF j(1)]] j(2) by simp
  ultimately show ?thesis by simp
qed

theorem vocabulary_most_frequent_witness:
  "distinct [''b'', ''a''] \<and> set [''b'', ''a''] = set [''a'', ''b'', ''a'']
   \<and> build_vocabulary [''b'', ''a''] [''a'', ''b'', ''a''] 1 = Inr {''a''}
   \<and> ''a'' \<in> {''a''} \<and> ''b'' \<in> set [''a'', ''b'', ''a''] \<and> ''b'' \<notin> {''a''}
   \<and> count_list [''a'', ''b'', ''a''] ''b'' \<le> count_list [''a'', ''b'', ''a''] ''a''"
proof -
  have h1: "distinct [''b'', ''a'']" by simp
  have h2: "set [''b'', ''a''] = set [''a'', ''b'', ''a'']" by auto
  have h3: "build_vocabulary [''b'', ''a''] [''a'', ''b'', ''a''] 1 = Inr {''a''}"
    by (simp add: build_vocabulary_def most_common_def Counter_def)
  have h4: "''a'' \<in> {''a''}" by simp
  have h5: "''b'' \<in> set [''a'', ''b'', ''a'']" by simp
  have h6: "''b'' \<notin> {''a''}" by simp
  from vocabulary_most_frequent [OF h1 h2 h3 h4 h5 h6] h1 h2 h3 h4 h5 h6 show ?thesis by blast
qed

subsection \<open>The batches\<close>

lemma map_nth_upt:
  "e \<le> length xs \<Longrightarrow> map (nth xs) [c..<e] = take (e - c) (drop c xs)"
  by (rule nth_equalityI) auto

lemma py_slice_arange:
  assumes "c < n" and "1 \<le> B"
  shows "py_slice (np_arange n) (int c) (min (int c + B) (int n)) = [c..<min (c + nat B) n]"
proof -
  have lo: "py_clip n (int c) = int c"
    using assms(1) by (simp add: py_clip_def)
  have hi: "py_clip n (min (int c + B) (int n)) = int (min (c + nat B) n)"
    using assms by (auto simp: py_clip_def min_def)
  have width: "nat (py_clip n (min (int c + B) (int n)) - int c) = min (c + nat B) n - c"
    unfolding hi by simp
  have "py_slice (np_arange n) (int c) (min (int c + B) (int n))
          = take (min (c + nat B) n - c) (drop c [0..<n])"
    by (simp only: py_slice_def np_arange_def length_upt diff_zero width lo nat_int)
  also have "\<dots> = [c..<min (c + nat B) n]"
    using assms by (simp add: take_upt min_def)
  finally show ?thesis .
qed

lemma np_take_upt:
  "e \<le> length A \<Longrightarrow> np_take A [c..<e] = Inr (take (e - c) (drop c A))"
  by (simp add: np_take_def list_all_iff map_nth_upt)

lemma take_min_drop:
  "take (min (c + b) (length xs) - c) (drop c xs) = take b (drop c xs)"
  by (cases "c + b \<le> length xs") (simp_all add: min_def)

lemma batch_count_step:
  assumes "c < n" and "0 < (b::nat)"
  shows "(n - c + b - 1) div b = Suc ((n - (c + b) + b - 1) div b)"
proof (cases "c + b \<le> n")
  case True
  define a where "a = n - (c + b) + b - 1"
  from True assms have "n - c + b - 1 = a + b" by (simp add: a_def)
  moreover have "(a + b) div b = a div b + 1" using assms(2) by (intro div_add_self2) simp
  then have "(a + b) div b = Suc (a div b)" by simp
  ultimately show ?thesis by (simp only: a_def)
next
  case False
  with assms have "b \<le> n - c + b - 1" "n - c + b - 1 < 2 * b" by simp_all
  then have "(n - c + b - 1) div b = 1"
    by (metis One_nat_def div_nat_eqI mult.commute mult_1 numeral_2_eq_2 plus_1_eq_Suc mult_Suc)
  moreover from False assms(2) have "(n - (c + b) + b - 1) div b = 0" by simp
  ultimately show ?thesis by simp
qed

lemma py_slice_whole: "py_slice xs 0 (int (length xs)) = xs"
  by (simp add: py_slice_def py_clip_def)

lemma np_take_rows_upt:
  "e \<le> length rs \<Longrightarrow> np_take_rows (Matrix rs) [c..<e] = Inr (take (e - c) (drop c rs))"
  by (simp add: np_take_upt py_slice_whole)

lemma batcher_loop_closed:
  assumes "length Y = length rs" and "0 < b"
  shows "batcher_loop (Matrix rs) Y (int b) (int c) =
           Some (Inr (map (\<lambda>k. (take b (drop (c + k * b) rs), take b (drop (c + k * b) Y)))
                        [0..<(length rs - c + b - 1) div b]))"
proof (induction "length rs - c" arbitrary: c rule: less_induct)
  case less
  show ?case
  proof (cases "c < length rs")
    case False
    then have "(length rs - c + b - 1) div b = 0" using assms(2) by simp
    with False show ?thesis by (subst batcher_loop.simps) simp
  next
    case True
    let ?batch = "\<lambda>c k. (take b (drop (c + k * b) rs), take b (drop (c + k * b) Y))"
    let ?m = "(length rs - (c + b) + b - 1) div b"
    have B: "(1::int) \<le> int b" using assms(2) by simp
    have draw: "py_slice (np_arange (length rs)) (int c) (min (int c + int b) (int (length rs)))
                  = [c..<min (c + b) (length rs)]"
      using py_slice_arange [OF True B] by simp
    have xb: "np_take_rows (Matrix rs) [c..<min (c + b) (length rs)] = Inr (take b (drop c rs))"
      by (simp only: np_take_rows_upt [OF min.cobounded2] take_min_drop)
    have yb: "np_take Y [c..<min (c + b) (length rs)] = Inr (take b (drop c Y))"
      using take_min_drop [of c b Y] by (simp add: np_take_upt assms(1))
    have "length rs - (c + b) < length rs - c" using True assms(2) by simp
    then have rest: "batcher_loop (Matrix rs) Y (int b) (int (c + b))
                       = Some (Inr (map (?batch (c + b)) [0..<?m]))"
      by (rule less)
    have count: "(length rs - c + b - 1) div b = Suc ?m"
      using True assms(2) by (rule batch_count_step)
    have "map (?batch c) [0..<Suc ?m] = ?batch c 0 # map (?batch c) (map Suc [0..<?m])"
      by (simp only: upt_conv_Cons [of 0 "Suc ?m"] map_Suc_upt list.map)
    also have "map (?batch c) (map Suc [0..<?m]) = map (?batch (c + b)) [0..<?m]"
      by (simp add: ac_simps)
    finally have unfold: "map (?batch c) [0..<Suc ?m]
                   = (take b (drop c rs), take b (drop c Y)) # map (?batch (c + b)) [0..<?m]"
      by simp
    have "batcher_loop (Matrix rs) Y (int b) (int c) =
            Some (Inr ((take b (drop c rs), take b (drop c Y)) # map (?batch (c + b)) [0..<?m]))"
      using True by (subst batcher_loop.simps) (simp add: draw xb yb rest [simplified] del: np_take_rows.simps)
    then show ?thesis by (simp only: count unfold)
  qed
qed

text \<open>
  On a one-dimensional \<^verbatim>\<open>X\<close> that is not empty the first \<^verbatim>\<open>X[draw, :]\<close> raises, so
  the generator yields no batch at all; the docstring asks for a matrix.
\<close>

lemma data_batcher_one_dimensional:
  "data_batcher (Vector (x # xs)) Y B = Some (Inl IndexError)"
  unfolding data_batcher_def by (subst batcher_loop.simps) simp

lemma concat_chunks:
  "0 < b \<Longrightarrow> concat (map (\<lambda>k. take b (drop (k * b) xs)) [0..<m]) = take (m * b) xs"
proof (induction m)
  case 0
  then show ?case by simp
next
  case (Suc m)
  have "concat (map (\<lambda>k. take b (drop (k * b) xs)) [0..<Suc m])
          = concat (map (\<lambda>k. take b (drop (k * b) xs)) [0..<m]) @ take b (drop (m * b) xs)"
    by simp
  also have "\<dots> = take (m * b) xs @ take b (drop (m * b) xs)"
    using Suc by simp
  also have "\<dots> = take (m * b + b) xs" by (simp only: take_add)
  also have "m * b + b = Suc m * b" by simp
  finally show ?case .
qed

lemma batches_cover:
  assumes "0 < (b::nat)"
  shows "n \<le> ((n + b - 1) div b) * b"
proof -
  have "n + b - 1 = ((n + b - 1) div b) * b + (n + b - 1) mod b" by simp
  moreover have "(n + b - 1) mod b < b" using assms by simp
  ultimately show ?thesis by linarith
qed

lemma batches_tight:
  assumes "0 < (b::nat)" and "Suc k < (n + b - 1) div b"
  shows "Suc k * b \<le> n"
proof -
  from assms(2) have "Suc (Suc k) \<le> (n + b - 1) div b" by simp
  then have "Suc (Suc k) * b \<le> ((n + b - 1) div b) * b" by (rule mult_le_mono1)
  also have "\<dots> \<le> n + b - 1" by simp
  finally show ?thesis using assms(1) by simp
qed

lemma batches_last:
  assumes "0 < (b::nat)" and "k < (n + b - 1) div b"
  shows "k * b < n"
proof -
  from assms(2) have "Suc k \<le> (n + b - 1) div b" by simp
  then have "Suc k * b \<le> ((n + b - 1) div b) * b" by (rule mult_le_mono1)
  also have "\<dots> \<le> n + b - 1" by simp
  finally show ?thesis using assms(1) by simp
qed

text \<open>
  Claim C10. For a matrix \<open>X\<close>, given by its rows, an array \<open>Y\<close> with as many entries as
  \<open>X\<close> has rows, and a batch size \<open>B \<ge> 1\<close>, the generator ends, raises nothing, and
  yields the consecutive slices of \<open>B\<close> rows of \<open>X\<close> and of \<open>Y\<close> in their order: batch
  \<open>k\<close> holds the rows from \<open>k B\<close> on. The batches put end to end are the rows of \<open>X\<close> and
  \<open>Y\<close> again; every batch but the last has exactly \<open>B\<close> rows, and the last has the
  remainder, at least one row and at most \<open>B\<close>.
\<close>
theorem data_batcher_slices:
  assumes "length rs = length Y" and "1 \<le> B"
  shows "\<exists>bs. data_batcher (Matrix rs) Y B = Some (Inr bs)
           \<and> bs = map (\<lambda>k. (take (nat B) (drop (k * nat B) rs), take (nat B) (drop (k * nat B) Y)))
                     [0..<(length rs + nat B - 1) div nat B]
           \<and> concat (map fst bs) = rs \<and> concat (map snd bs) = Y
           \<and> (\<forall>k<length bs.
                 length (snd (bs ! k)) = length (fst (bs ! k))
                 \<and> length (fst (bs ! k)) = (if Suc k < length bs then nat B else length rs - k * nat B)
                 \<and> 0 < length (fst (bs ! k)) \<and> length (fst (bs ! k)) \<le> nat B)"
proof -
  define b where "b = nat B"
  define m where "m = (length rs + b - 1) div b"
  define bs where "bs = map (\<lambda>k. (take b (drop (k * b) rs), take b (drop (k * b) Y))) [0..<m]"
  have b: "0 < b" "B = int b" using assms(2) by (simp_all add: b_def)
  have run: "data_batcher (Matrix rs) Y B = Some (Inr bs)"
    using batcher_loop_closed [OF assms(1) [symmetric] b(1), of 0]
    by (simp add: data_batcher_def b(2) bs_def m_def)
  have cover: "length rs \<le> m * b" unfolding m_def using b(1) by (rule batches_cover)
  have "concat (map fst bs) = take (m * b) rs"
    using concat_chunks [OF b(1), of rs m] by (simp add: bs_def comp_def)
  with cover have cx: "concat (map fst bs) = rs" by simp
  have "concat (map snd bs) = take (m * b) Y"
    using concat_chunks [OF b(1), of Y m] by (simp add: bs_def comp_def)
  with cover assms(1) have cy: "concat (map snd bs) = Y" by simp
  have sizes: "length (snd (bs ! k)) = length (fst (bs ! k))
                 \<and> length (fst (bs ! k)) = (if Suc k < length bs then b else length rs - k * b)
                 \<and> 0 < length (fst (bs ! k)) \<and> length (fst (bs ! k)) \<le> b"
    if "k < length bs" for k
  proof -
    have len: "length bs = m" by (simp add: bs_def)
    from that have k: "k < m" by (simp add: bs_def)
    then have nth: "bs ! k = (take b (drop (k * b) rs), take b (drop (k * b) Y))"
      by (simp add: bs_def)
    have lt: "k * b < length rs" using b(1) k unfolding m_def by (rule batches_last)
    have full: "Suc k * b \<le> length rs" if "Suc k < m"
      using b(1) that unfolding m_def by (rule batches_tight)
    have last: "length rs - k * b \<le> b" if "\<not> Suc k < m"
    proof -
      from that k have "m = Suc k" by simp
      with cover show ?thesis by simp
    qed
    show ?thesis
      using lt full last assms(1) b(1) by (auto simp: nth len min_def)
  qed
  show ?thesis
    using run cx cy sizes unfolding bs_def m_def b_def by blast
qed

theorem data_batcher_slices_witness:
  "length [[1, 2], [3, 4], [5, 6], [7, 8], [9, 10 :: nat]] = length [10, 20, 30, 40, 50 :: nat]
   \<and> (1::int) \<le> 2
   \<and> data_batcher (Matrix [[1, 2], [3, 4], [5, 6], [7, 8], [9, 10 :: nat]])
         [10, 20, 30, 40, 50 :: nat] 2
       = Some (Inr [([[1, 2], [3, 4]], [10, 20]), ([[5, 6], [7, 8]], [30, 40]), ([[9, 10]], [50])])"
proof -
  have h1: "length [[1, 2], [3, 4], [5, 6], [7, 8], [9, 10 :: nat]]
              = length [10, 20, 30, 40, 50 :: nat]" by simp
  have h2: "(1::int) \<le> 2" by simp
  from data_batcher_slices [OF h1 h2] obtain bs where
    r: "data_batcher (Matrix [[1, 2], [3, 4], [5, 6], [7, 8], [9, 10 :: nat]])
          [10, 20, 30, 40, 50 :: nat] 2 = Some (Inr bs)"
    and bs: "bs = map (\<lambda>k. (take (nat 2) (drop (k * nat 2) [[1, 2], [3, 4], [5, 6], [7, 8], [9, 10 :: nat]]),
                          take (nat 2) (drop (k * nat 2) [10, 20, 30, 40, 50 :: nat])))
                   [0..<(length [[1, 2], [3, 4], [5, 6], [7, 8], [9, 10 :: nat]] + nat 2 - 1) div nat 2]"
    by blast
  have "bs = [([[1, 2], [3, 4]], [10, 20]), ([[5, 6], [7, 8]], [30, 40]), ([[9, 10]], [50])]"
    unfolding bs by code_simp
  with r h1 h2 show ?thesis by simp
qed

subsection \<open>Two runs of the pipeline\<close>

lemma word_to_ix_renaming:
  assumes "distinct e1" and "distinct e2" and "set e1 = set e2"
  shows "word_to_ix e2 w = map_option (renaming e1 e2) (word_to_ix e1 w)"
proof (cases "w \<in> set e1")
  case False
  with assms(3) have "word_to_ix e1 w = None" "word_to_ix e2 w = None"
    using dom_word_to_ix by blast+
  then show ?thesis by simp
next
  case True
  then obtain i where i: "i < length e1" "e1 ! i = w" by (auto simp: in_set_conv_nth)
  with assms(1) have one: "word_to_ix e1 w = Some i" using word_to_ix_nth by blast
  from True assms(3) have "w \<in> dom (word_to_ix e2)" by (simp add: dom_word_to_ix)
  then obtain j where two: "word_to_ix e2 w = Some j" by auto
  with i have "renaming e1 e2 i = j" by (simp add: renaming_def)
  with one two show ?thesis by simp
qed

lemma renaming_same:
  assumes "distinct e"
  shows "renaming e e i = i"
  using word_to_ix_nth [OF assms, of i] by (simp add: renaming_def)

lemma renaming_bij:
  assumes "distinct e1" and "distinct e2" and "set e1 = set e2"
  shows "bij_betw (renaming e1 e2) {0..<length e1} {0..<length e1}"
proof -
  have len: "length e1 = length e2"
    using assms by (metis distinct_card)
  have "bij_betw (nth e1) {0..<length e1} (set e1)"
    using assms(1) by (intro bij_betw_nth) auto
  moreover have "bij_betw (\<lambda>w. the (word_to_ix e2 w)) (set e1) {0..<length e1}"
    using word_to_ix_bij [OF assms(2)] by (simp add: assms(3) len)
  ultimately have "bij_betw ((\<lambda>w. the (word_to_ix e2 w)) \<circ> nth e1) {0..<length e1} {0..<length e1}"
    by (rule bij_betw_trans)
  moreover have "((\<lambda>w. the (word_to_ix e2 w)) \<circ> nth e1) i = renaming e1 e2 i"
    if "i \<in> {0..<length e1}" for i
  proof -
    from that have "e1 ! i \<in> dom (word_to_ix e2)"
      by (simp add: dom_word_to_ix assms(3) [symmetric])
    with that show ?thesis by (auto simp: renaming_def)
  qed
  ultimately show ?thesis
    using bij_betw_cong [of "{0..<length e1}" "(\<lambda>w. the (word_to_ix e2 w)) \<circ> nth e1"
        "renaming e1 e2" "{0..<length e1}"]
    by blast
qed

lemma dict_get_related:
  "(\<And>w. d2 w = map_option r (d1 w)) \<Longrightarrow> dict_get d2 w = map_sum id r (dict_get d1 w)"
  by (simp add: dict_get_def split: option.splits)

lemma make_context_vector_related:
  assumes "\<And>w. d2 w = map_option r (d1 w)"
  shows "make_context_vector ws d2 = map_sum id (map r) (make_context_vector ws d1)"
  unfolding make_context_vector_def
  by (induction ws) (simp_all add: dict_get_related [of d2 r d1, OF assms] split: sum.splits)

lemma example_step_related:
  assumes "\<And>w. d2 w = map_option r (d1 w)"
  shows "example_step toks d2 W (relabel r s) i = map_sum id (relabel r) (example_step toks d1 W s i)"
  by (simp add: example_step_def relabel_def
        make_context_vector_related [of d2 r d1, OF assms]
        dict_get_related [of d2 r d1, OF assms] split: sum.splits)

lemma for_loop_related:
  assumes "\<And>s i. f2 (g s) i = map_sum id g (f1 s i)"
  shows "for_loop f2 xs (g s) = map_sum id g (for_loop f1 xs s)"
proof (induction xs arbitrary: s)
  case Nil
  then show ?case by simp
next
  case (Cons x xs)
  then show ?case by (cases "f1 s x") (simp_all add: assms)
qed

lemma make_examples_related:
  assumes "\<And>w. d2 w = map_option r (d1 w)"
  shows "make_examples toks d2 W = map_sum id (relabel r) (make_examples toks d1 W)"
proof -
  have "for_loop (example_step toks d2 W) (py_range W (int (length toks) - W)) (relabel r ([], []))
          = map_sum id (relabel r)
              (for_loop (example_step toks d1 W) (py_range W (int (length toks) - W)) ([], []))"
    by (rule for_loop_related) (rule example_step_related [OF assms])
  then show ?thesis by (simp add: make_examples_def relabel_def)
qed

text \<open>
  Claim C9, as the code has it. Take two runs of the three cells on the same raw text,
  size and window radius, with the same order of the counter's keys, in which the
  vocabulary set is enumerated in the orders \<open>e1\<close> and \<open>e2\<close>. Both runs end alike, in the
  same exception or in datasets with the same examples in the same order, the second
  being the first with every id renamed by \<open>renaming e1 e2\<close>, a permutation of the ids.
  When the two orders are the same the renaming changes nothing, and the two datasets
  are identical.
\<close>
theorem two_runs_up_to_renaming:
  assumes "distinct e1" and "distinct e2" and "set e1 = set e2"
  shows "pipeline keys e2 raw_text K W
           = map_sum id (relabel (renaming e1 e2)) (pipeline keys e1 raw_text K W)
       \<and> bij_betw (renaming e1 e2) {0..<length e1} {0..<length e1}
       \<and> relabel (renaming e1 e1) = id"
proof -
  have "make_examples toks (word_to_ix e2) W
          = map_sum id (relabel (renaming e1 e2)) (make_examples toks (word_to_ix e1) W)" for toks
    by (rule make_examples_related) (rule word_to_ix_renaming [OF assms])
  then have "pipeline keys e2 raw_text K W
           = map_sum id (relabel (renaming e1 e2)) (pipeline keys e1 raw_text K W)"
    by (simp add: pipeline_def split: sum.splits)
  moreover have "relabel (renaming e1 e1) = id"
    using renaming_same [OF assms(1)] by (auto simp: relabel_def fun_eq_iff intro: map_idI)
  ultimately show ?thesis using renaming_bij [OF assms] by blast
qed

theorem two_runs_up_to_renaming_witness:
  "distinct [''a'', ''b''] \<and> distinct [''b'', ''a''] \<and> set [''a'', ''b''] = set [''b'', ''a'']
   \<and> pipeline [''a'', ''b''] [''a'', ''b''] [''a'', ''b'', ''a''] 2 1 = Inr ([[0, 0]], [1])
   \<and> pipeline [''a'', ''b''] [''b'', ''a''] [''a'', ''b'', ''a''] 2 1
       = map_sum id (relabel (renaming [''a'', ''b''] [''b'', ''a'']))
           (pipeline [''a'', ''b''] [''a'', ''b''] [''a'', ''b'', ''a''] 2 1)
   \<and> renaming [''a'', ''b''] [''b'', ''a''] 0 = 1 \<and> renaming [''a'', ''b''] [''b'', ''a''] 1 = 0"
proof -
  have h1: "distinct [''a'', ''b'']" by simp
  have h2: "distinct [''b'', ''a'']" by simp
  have h3: "set [''a'', ''b''] = set [''b'', ''a'']" by auto
  have v: "pipeline [''a'', ''b''] [''a'', ''b''] [''a'', ''b'', ''a''] 2 1 = Inr ([[0, 0]], [1])"
    by code_simp
  have r: "renaming [''a'', ''b''] [''b'', ''a''] 0 = 1" "renaming [''a'', ''b''] [''b'', ''a''] 1 = 0"
    by code_simp+
  from two_runs_up_to_renaming [OF h1 h2 h3, of "[''a'', ''b'']" "[''a'', ''b'', ''a'']" 2 1] h1 h2 h3 v r
  show ?thesis by blast
qed

text \<open>
  Claim C9 as the specification words it promises the same ids in every run. For the text
  a, b, a the vocabulary is the set of a and b; enumerated as a, b the only example is
  \<open>([0, 0], 1)\<close>, enumerated as b, a it is \<open>([1, 1], 0)\<close>.
\<close>
theorem two_runs_counterexample:
  "build_vocabulary [''a'', ''b''] [''a'', ''b'', ''a''] 2 = Inr (set [''a'', ''b'']) \<and>
   set [''b'', ''a''] = set [''a'', ''b''] \<and>
   pipeline [''a'', ''b''] [''a'', ''b''] [''a'', ''b'', ''a''] 2 1 = Inr ([[0, 0]], [1]) \<and>
   pipeline [''a'', ''b''] [''b'', ''a''] [''a'', ''b'', ''a''] 2 1 = Inr ([[1, 1]], [0]) \<and>
   pipeline [''a'', ''b''] [''a'', ''b''] [''a'', ''b'', ''a''] 2 1
     \<noteq> pipeline [''a'', ''b''] [''b'', ''a''] [''a'', ''b'', ''a''] 2 1"
  by code_simp

end
